theory Spec2Isabelle
  imports Main
begin

section \<open>The statement splitter of sql/migrate/lex.go\<close>

text \<open>
  A Go string is a sequence of bytes, modelled as a \<^typ>\<open>string\<close> (a list of 8-bit
  characters). A rune is an \<^typ>\<open>int\<close>. The cursor fields of the scanner are
  non-negative in Go (they start at 0 and only grow, or are set to \<open>pos - width\<close>
  after a slice with that bound has succeeded), so they are natural numbers here and
  every slice expression whose bounds could be out of range is checked and ends in
  \<open>SlicePanic\<close>. The nesting depth is an \<^typ>\<open>int\<close>, as in the source; it
  changes by one per byte read at most, so the 64-bit bound of Go's \<open>int\<close> is out of
  reach and is not modelled.
\<close>

type_synonym rune = int

definition rune_of :: "char \<Rightarrow> rune" where
  "rune_of c = of_char c"

definition eos :: rune where
  "eos = - 1"

definition RuneError :: rune where
  "RuneError = 0xFFFD"

subsection \<open>The Go standard library functions the scanner calls\<close>

text \<open>
  \<open>utf8.DecodeRuneInString\<close>: the first rune of the string and its width in bytes;
  \<open>(RuneError, 0)\<close> on the empty string and \<open>(RuneError, 1)\<close> on an invalid
  encoding. The table \<open>first\<close> and the accept ranges of the library are written
  out as comparisons on the leading byte; masks and shifts are written with
  \<open>mod\<close> and multiplication.
\<close>

definition DecodeRuneInString :: "string \<Rightarrow> rune \<times> nat" where
  "DecodeRuneInString s =
     (case s of
        [] \<Rightarrow> (RuneError, 0)
      | c0 # _ \<Rightarrow>
          (let s0 = (of_char c0 :: int) in
           if s0 < 0x80 then (s0, 1)
           else if s0 < 0xC2 \<or> 0xF4 < s0 then (RuneError, 1)
           else
             (let sz = (if s0 < 0xE0 then 2 else if s0 < 0xF0 then 3 else (4::nat));
                  lo = (if s0 = 0xE0 then 0xA0 else if s0 = 0xF0 then 0x90 else 0x80);
                  hi = (if s0 = 0xED then 0x9F else if s0 = 0xF4 then 0x8F else 0xBF)
              in if length s < sz then (RuneError, 1)
                 else
                   (let s1 = (of_char (s ! 1) :: int) in
                    if s1 < lo \<or> hi < s1 then (RuneError, 1)
                    else if sz \<le> 2 then ((s0 mod 32) * 64 + s1 mod 64, 2)
                    else
                      (let s2 = (of_char (s ! 2) :: int) in
                       if s2 < 0x80 \<or> 0xBF < s2 then (RuneError, 1)
                       else if sz \<le> 3 then
                         ((s0 mod 16) * 4096 + (s1 mod 64) * 64 + s2 mod 64, 3)
                       else
                         (let s3 = (of_char (s ! 3) :: int) in
                          if s3 < 0x80 \<or> 0xBF < s3 then (RuneError, 1)
                          else ((s0 mod 8) * 262144 + (s1 mod 64) * 4096
                                  + (s2 mod 64) * 64 + s3 mod 64, 4)))))))"

text \<open>\<open>utf8.RuneStart\<close>: the byte is not a continuation byte.\<close>

definition RuneStart :: "char \<Rightarrow> bool" where
  "RuneStart c = (\<not> (0x80 \<le> (of_char c :: int) \<and> (of_char c :: int) \<le> 0xBF))"

text \<open>
  The backwards loop of \<open>utf8.DecodeLastRuneInString\<close>: from \<open>start\<close> down to
  \<open>lim\<close>, stop at the first byte that starts a rune.
\<close>

function back_scan :: "string \<Rightarrow> int \<Rightarrow> int \<Rightarrow> int" where
  "back_scan s lim st =
     (if lim \<le> st then (if RuneStart (s ! nat st) then st else back_scan s lim (st - 1))
      else st)"
  by pat_completeness auto
termination
  by (relation "measure (\<lambda>(s, lim, st). nat (st - lim + 1))") auto

declare back_scan.simps [simp del]

definition DecodeLastRuneInString :: "string \<Rightarrow> rune \<times> nat" where
  "DecodeLastRuneInString s =
     (let e = int (length s) in
      if e = 0 then (RuneError, 0)
      else
        (let r = (of_char (s ! nat (e - 1)) :: int) in
         if r < 0x80 then (r, 1)
         else
           (let lim = (if e - 4 < 0 then 0 else e - 4);
                st0 = back_scan s lim (e - 2);
                st = (if st0 < 0 then 0 else st0);
                (r, size) = DecodeRuneInString (drop (nat st) s)
            in if st + int size \<noteq> e then (RuneError, 1) else (r, size))))"

text \<open>\<open>unicode.IsSpace\<close>: the code points with the White_Space property.\<close>

definition IsSpace :: "rune \<Rightarrow> bool" where
  "IsSpace r =
     ((0x09 \<le> r \<and> r \<le> 0x0D) \<or> r = 0x20 \<or> r = 0x85 \<or> r = 0xA0 \<or> r = 0x1680
      \<or> (0x2000 \<le> r \<and> r \<le> 0x200A) \<or> r = 0x2028 \<or> r = 0x2029 \<or> r = 0x202F
      \<or> r = 0x205F \<or> r = 0x3000)"

function TrimLeft :: "string \<Rightarrow> string" where
  "TrimLeft s =
     (if s = [] then []
      else (case DecodeRuneInString s of
              (r, w) \<Rightarrow> if IsSpace r then TrimLeft (drop (max 1 w) s) else s))"
  by pat_completeness auto
termination
  by (relation "measure length") auto

declare TrimLeft.simps [simp del]

function TrimRight :: "string \<Rightarrow> string" where
  "TrimRight s =
     (if s = [] then []
      else (case DecodeLastRuneInString s of
              (r, w) \<Rightarrow> if IsSpace r then TrimRight (take (length s - max 1 w) s) else s))"
  by pat_completeness auto
termination
  by (relation "measure length") auto

declare TrimRight.simps [simp del]

text \<open>
  \<open>strings.TrimSpace\<close>: all leading and all trailing white space removed. (On a
  non-empty string both decoders return a width of at least 1, so \<open>max 1 w\<close> is
  \<open>w\<close>; it is there to make the recursion visibly terminating.)
\<close>

definition TrimSpace :: "string \<Rightarrow> string" where
  "TrimSpace s = TrimRight (TrimLeft s)"

text \<open>\<open>strings.HasPrefix\<close>.\<close>

definition HasPrefix :: "string \<Rightarrow> string \<Rightarrow> bool" where
  "HasPrefix s p = (length p \<le> length s \<and> take (length p) s = p)"

text \<open>
  \<open>strings.Index\<close>: the index of the first instance of \<open>sub\<close> in \<open>s\<close>;
  \<open>None\<close> stands for the library's \<open>-1\<close>.
\<close>

fun Index :: "string \<Rightarrow> string \<Rightarrow> nat option" where
  "Index [] sub = (if sub = [] then Some 0 else None)"
| "Index (c # s) sub =
     (if HasPrefix (c # s) sub then Some 0 else map_option Suc (Index s sub))"

subsection \<open>The scanner state\<close>

record lex =
  input :: string
  pos :: nat
  width :: nat
  start :: nat
  depth :: int
  delim :: string

datatype error =
    EOF
  | InvalidDelimiter
  | UnclosedParentheses
  | UnexpectedCloseParen nat
  | UnclosedQuote rune
  | UnclosedComment nat
  | SlicePanic

definition delimComment :: string where
  "delimComment = ''//atlas:delimiter ''"

definition newline :: string where
  "newline = [CHR 0x0A]"

definition newLex :: "string \<Rightarrow> error + lex" where
  "newLex inp0 =
     (let inp = TrimSpace inp0 in
      if HasPrefix inp delimComment then
        (let inp1 = TrimSpace (drop (length delimComment) inp) in
         case Index inp1 newline of
           None \<Rightarrow> Inl InvalidDelimiter
         | Some i \<Rightarrow>
             Inr \<lparr>input = drop (i + 1) inp1, pos = 0, width = 0, start = 0, depth = 0,
                  delim = take i inp1\<rparr>)
      else Inr \<lparr>input = inp, pos = 0, width = 0, start = 0, depth = 0, delim = '';''\<rparr>)"

text \<open>\<open>(l *lex) next\<close>: the rune read and the updated state.\<close>

definition lex_next :: "lex \<Rightarrow> rune \<times> lex" where
  "lex_next l =
     (if length (input l) \<le> pos l then (eos, l)
      else (case DecodeRuneInString (drop (pos l) (input l)) of
              (r, w) \<Rightarrow> (r, l\<lparr>pos := pos l + w, width := w\<rparr>)))"

lemma of_char_int_bounds: "0 \<le> (of_char c :: int)" "(of_char c :: int) < 256"
proof -
  have "(of_char c :: int) = int (of_char c)" by (simp add: of_nat_of_char)
  then show "0 \<le> (of_char c :: int)" "(of_char c :: int) < 256" by simp_all
qed

lemma DecodeRuneInString_width:
  "s \<noteq> [] \<Longrightarrow> 1 \<le> snd (DecodeRuneInString s) \<and> snd (DecodeRuneInString s) \<le> length s"
  by (cases s) (simp_all add: DecodeRuneInString_def Let_def Suc_le_eq)

lemma DecodeRuneInString_nonneg: "0 \<le> fst (DecodeRuneInString s)"
  by (cases s) (simp_all add: DecodeRuneInString_def Let_def RuneError_def of_char_int_bounds)

lemma lex_next_eos:
  "lex_next l = (r, l1) \<Longrightarrow> r = eos \<longleftrightarrow> length (input l) \<le> pos l"
  using DecodeRuneInString_nonneg [of "drop (pos l) (input l)"]
  by (auto simp: lex_next_def eos_def split: prod.splits if_splits)

lemma lex_next_frame:
  "lex_next l = (r, l1) \<Longrightarrow>
     input l1 = input l \<and> start l1 = start l \<and> depth l1 = depth l \<and> delim l1 = delim l
     \<and> pos l \<le> pos l1"
  by (auto simp: lex_next_def split: prod.splits if_splits)

lemma lex_next_advance:
  "lex_next l = (r, l1) \<Longrightarrow> r \<noteq> eos \<Longrightarrow>
     pos l < length (input l) \<and> 1 \<le> width l1 \<and> pos l1 = pos l + width l1
     \<and> pos l1 \<le> length (input l)"
  using DecodeRuneInString_width [of "drop (pos l) (input l)"]
        DecodeRuneInString_nonneg [of "drop (pos l) (input l)"]
  by (auto simp: lex_next_def eos_def split: prod.splits if_splits)

function skipQuote :: "rune \<Rightarrow> lex \<Rightarrow> error option \<times> lex" where
  "skipQuote quote l =
     (case lex_next l of
        (r, l1) \<Rightarrow>
          if r = eos then (Some (UnclosedQuote quote), l1)
          else if r = rune_of CHR 0x5C then skipQuote quote (snd (lex_next l1))
          else if r = quote then (None, l1)
          else skipQuote quote l1)"
  by pat_completeness auto
termination
proof (relation "measure (\<lambda>(q, l). length (input l) - pos l)", goal_cases)
  case 1
  show ?case by simp
next
  case (2 quote l r l1)
  then have "lex_next l = (r, l1)" "r \<noteq> eos" by simp_all
  from lex_next_advance [OF this] lex_next_frame [OF this(1)]
       lex_next_frame [of l1 "fst (lex_next l1)" "snd (lex_next l1)"]
  show ?case by simp arith
next
  case (3 quote l r l1)
  then have "lex_next l = (r, l1)" "r \<noteq> eos" by simp_all
  from lex_next_advance [OF this] lex_next_frame [OF this(1)]
  show ?case by simp arith
qed

declare skipQuote.simps [simp del]

text \<open>
  The statements of one \<open>case\<close> of the switch in \<open>stmt\<close> either leave the
  loop with the values \<open>stmt\<close> returns (\<open>Some\<close>) or fall out of the switch
  into the next iteration (\<open>None\<close>).
\<close>

type_synonym outcome = "(error + string) option \<times> lex"

text \<open>\<open>case r == eos\<close>.\<close>

definition atEOS :: "lex \<Rightarrow> outcome" where
  "atEOS l =
     (if 0 < depth l then (Some (Inl UnclosedParentheses), l)
      else if start l < pos l then
        (if start l \<le> length (input l) then (Some (Inr (drop (start l) (input l))), l)
         else (Some (Inl SlicePanic), l))
      else (Some (Inl EOF), l))"

text \<open>The body of \<open>case r == '-' && l.next() == '-'\<close>.\<close>

definition lineComment :: "lex \<Rightarrow> outcome" where
  "lineComment l =
     (if length (input l) < pos l then (Some (Inl SlicePanic), l)
      else (case Index (drop (pos l) (input l)) newline of
              Some i \<Rightarrow> (None, l\<lparr>pos := pos l + (i + 1)\<rparr>)
            | None \<Rightarrow> (None, l)))"

text \<open>The body of \<open>case r == '/' && l.next() == '*'\<close>.\<close>

definition blockComment :: "lex \<Rightarrow> outcome" where
  "blockComment l =
     (if length (input l) < pos l then (Some (Inl SlicePanic), l)
      else (case Index (drop (pos l) (input l)) ''*/'' of
              None \<Rightarrow> (Some (Inl (UnclosedComment (pos l))), l)
            | Some i \<Rightarrow> (None, l\<lparr>pos := pos l + (i + 2)\<rparr>)))"

text \<open>
  The last case, \<open>strings.HasPrefix(l.input[l.pos-l.width:], l.delim)\<close>, and its
  body.
\<close>

definition matchDelim :: "lex \<Rightarrow> outcome" where
  "matchDelim l =
     (if pos l < width l \<or> length (input l) < pos l - width l then (Some (Inl SlicePanic), l)
      else if HasPrefix (drop (pos l - width l) (input l)) (delim l) then
        (if depth l = 0 then
           (if pos l < start l \<or> length (input l) < pos l then (Some (Inl SlicePanic), l)
            else (Some (Inr (take (pos l - start l) (drop (start l) (input l)))),
                  l\<lparr>start := pos l - width l, pos := pos l + length (delim l)\<rparr>))
         else (None, l))
      else (None, l))"

text \<open>
  One iteration of the loop of \<open>stmt\<close>. The case conditions are evaluated in
  order, and \<open>l.next()\<close> in the condition of a comment case is called exactly
  when the first conjunct holds, whether or not the second one does.
\<close>

definition stmt_iter :: "lex \<Rightarrow> outcome" where
  "stmt_iter l =
     (case lex_next l of
        (r, l1) \<Rightarrow>
          if r = eos then atEOS l1
          else if r = rune_of CHR ''('' then (None, l1\<lparr>depth := depth l1 + 1\<rparr>)
          else if r = rune_of CHR '')'' then
            (if depth l1 = 0 then (Some (Inl (UnexpectedCloseParen (pos l1))), l1)
             else (None, l1\<lparr>depth := depth l1 - 1\<rparr>))
          else if r = rune_of CHR 0x27 \<or> r = rune_of CHR 0x22 \<or> r = rune_of CHR 0x60 then
            (case skipQuote r l1 of
               (Some e, l2) \<Rightarrow> (Some (Inl e), l2)
             | (None, l2) \<Rightarrow> (None, l2))
          else
            (case (if r = rune_of CHR ''-'' then lex_next l1 else (eos, l1)) of
               (r2, l2) \<Rightarrow>
                 if r = rune_of CHR ''-'' \<and> r2 = rune_of CHR ''-'' then lineComment l2
                 else
                   (case (if r = rune_of CHR ''/'' then lex_next l2 else (eos, l2)) of
                      (r3, l3) \<Rightarrow>
                        if r = rune_of CHR ''/'' \<and> r3 = rune_of CHR ''*'' then blockComment l3
                        else matchDelim l3)))"

lemma skipQuote_frame:
  "skipQuote q l = (e, l') \<Longrightarrow>
     input l' = input l \<and> start l' = start l \<and> depth l' = depth l \<and> delim l' = delim l
     \<and> pos l \<le> pos l'"
proof (induction q l arbitrary: e l' rule: skipQuote.induct)
  case (1 quote l)
  obtain r l1 where n: "lex_next l = (r, l1)" by (cases "lex_next l")
  obtain r2 l2 where n2: "lex_next l1 = (r2, l2)" by (cases "lex_next l1")
  note f1 = lex_next_frame [OF n] and f2 = lex_next_frame [OF n2]
  show ?case
  proof (cases "r = eos")
    case True
    with "1.prems" n f1 show ?thesis by (simp add: skipQuote.simps [of quote l])
  next
    case ne: False
    show ?thesis
    proof (cases "r = rune_of CHR 0x5C")
      case True
      with ne "1.prems" n n2 have "skipQuote quote l2 = (e, l')"
        by (simp add: skipQuote.simps [of quote l])
      from "1.IH"(1) [OF n [symmetric] ne True, of e l'] this n2 f1 f2
      show ?thesis by simp
    next
      case nb: False
      show ?thesis
      proof (cases "r = quote")
        case True
        with ne nb "1.prems" n f1 show ?thesis by (simp add: skipQuote.simps [of quote l])
      next
        case False
        with ne nb "1.prems" n have "skipQuote quote l1 = (e, l')"
          by (simp add: skipQuote.simps [of quote l])
        from "1.IH"(2) [OF n [symmetric] ne nb False this] f1
        show ?thesis by simp
      qed
    qed
  qed
qed

lemma lineComment_frame:
  "lineComment l = (out, l') \<Longrightarrow>
     input l' = input l \<and> start l' = start l \<and> depth l' = depth l \<and> delim l' = delim l
     \<and> pos l \<le> pos l'"
  by (auto simp: lineComment_def split: if_splits option.splits)

lemma blockComment_frame:
  "blockComment l = (out, l') \<Longrightarrow>
     input l' = input l \<and> start l' = start l \<and> depth l' = depth l \<and> delim l' = delim l
     \<and> pos l \<le> pos l'"
  by (auto simp: blockComment_def split: if_splits option.splits)

lemma matchDelim_frame:
  "matchDelim l = (out, l') \<Longrightarrow>
     input l' = input l \<and> depth l' = depth l \<and> delim l' = delim l \<and> pos l \<le> pos l'"
  by (auto simp: matchDelim_def split: if_splits)

lemma matchDelim_continue: "matchDelim l = (None, l') \<Longrightarrow> l' = l"
  by (auto simp: matchDelim_def split: if_splits)

text \<open>The switch of \<open>stmt\<close>, one case at a time.\<close>

lemma stmt_iter_eos:
  "lex_next l = (r, l1) \<Longrightarrow> r = eos \<Longrightarrow> stmt_iter l = atEOS l1"
  by (simp add: stmt_iter_def)

lemma stmt_iter_open:
  "lex_next l = (r, l1) \<Longrightarrow> r = rune_of CHR ''('' \<Longrightarrow>
     stmt_iter l = (None, l1\<lparr>depth := depth l1 + 1\<rparr>)"
  by (simp add: stmt_iter_def rune_of_def eos_def)

lemma stmt_iter_close:
  "lex_next l = (r, l1) \<Longrightarrow> r = rune_of CHR '')'' \<Longrightarrow>
     stmt_iter l =
       (if depth l1 = 0 then (Some (Inl (UnexpectedCloseParen (pos l1))), l1)
        else (None, l1\<lparr>depth := depth l1 - 1\<rparr>))"
  by (simp add: stmt_iter_def rune_of_def eos_def)

lemma stmt_iter_quote:
  "lex_next l = (r, l1) \<Longrightarrow>
   r = rune_of CHR 0x27 \<or> r = rune_of CHR 0x22 \<or> r = rune_of CHR 0x60 \<Longrightarrow>
     stmt_iter l =
       (case skipQuote r l1 of
          (Some e, l2) \<Rightarrow> (Some (Inl e), l2)
        | (None, l2) \<Rightarrow> (None, l2))"
  by (auto simp add: stmt_iter_def rune_of_def eos_def)

lemma stmt_iter_dash:
  "lex_next l = (r, l1) \<Longrightarrow> r = rune_of CHR ''-'' \<Longrightarrow> lex_next l1 = (r2, l2) \<Longrightarrow>
     stmt_iter l = (if r2 = rune_of CHR ''-'' then lineComment l2 else matchDelim l2)"
  by (simp add: stmt_iter_def rune_of_def eos_def)

lemma stmt_iter_slash:
  "lex_next l = (r, l1) \<Longrightarrow> r = rune_of CHR ''/'' \<Longrightarrow> lex_next l1 = (r2, l2) \<Longrightarrow>
     stmt_iter l = (if r2 = rune_of CHR ''*'' then blockComment l2 else matchDelim l2)"
  by (simp add: stmt_iter_def rune_of_def eos_def)

definition plain :: "rune \<Rightarrow> bool" where
  "plain r =
     (r \<noteq> eos \<and> r \<noteq> rune_of CHR ''('' \<and> r \<noteq> rune_of CHR '')'' \<and> r \<noteq> rune_of CHR 0x27
      \<and> r \<noteq> rune_of CHR 0x22 \<and> r \<noteq> rune_of CHR 0x60 \<and> r \<noteq> rune_of CHR ''-''
      \<and> r \<noteq> rune_of CHR ''/'')"

lemma stmt_iter_plain:
  "lex_next l = (r, l1) \<Longrightarrow> plain r \<Longrightarrow> stmt_iter l = matchDelim l1"
  by (simp add: stmt_iter_def plain_def)

lemma rune_cases:
  obtains (eos) "r = eos"
    | (opn) "r = rune_of CHR ''(''"
    | (cls) "r = rune_of CHR '')''"
    | (quote) "r = rune_of CHR 0x27 \<or> r = rune_of CHR 0x22 \<or> r = rune_of CHR 0x60"
    | (dash) "r = rune_of CHR ''-''"
    | (slash) "r = rune_of CHR ''/''"
    | (plain) "plain r"
  unfolding plain_def by blast

lemma stmt_iter_continue:
  assumes "stmt_iter l = (None, l')"
  shows "input l' = input l \<and> delim l' = delim l \<and> start l' = start l
         \<and> pos l < pos l' \<and> pos l < length (input l)"
proof -
  obtain r l1 where n: "lex_next l = (r, l1)" by (cases "lex_next l")
  obtain r2 l2 where n2: "lex_next l1 = (r2, l2)" by (cases "lex_next l1")
  note f = lex_next_frame [OF n] and f2 = lex_next_frame [OF n2]
  have ne: "r \<noteq> eos"
  proof
    assume "r = eos"
    from stmt_iter_eos [OF n this] assms show False
      by (simp add: atEOS_def split: if_splits)
  qed
  note a = lex_next_advance [OF n ne]
  show ?thesis
  proof (cases r rule: rune_cases)
    case eos
    with ne show ?thesis by simp
  next
    case opn
    from stmt_iter_open [OF n opn] assms a f show ?thesis by auto
  next
    case cls
    from stmt_iter_close [OF n cls] assms a f show ?thesis by (auto split: if_splits)
  next
    case quote
    from stmt_iter_quote [OF n quote] assms have "skipQuote r l1 = (None, l')"
      by (auto split: prod.splits option.splits)
    from skipQuote_frame [OF this] a f show ?thesis by simp
  next
    case dash
    from stmt_iter_dash [OF n dash n2] assms
    have "lineComment l2 = (None, l') \<or> matchDelim l2 = (None, l')"
      by (simp split: if_splits)
    then show ?thesis
      using lineComment_frame [of l2 None l'] matchDelim_continue [of l2 l'] a f f2
      by auto
  next
    case slash
    from stmt_iter_slash [OF n slash n2] assms
    have "blockComment l2 = (None, l') \<or> matchDelim l2 = (None, l')"
      by (simp split: if_splits)
    then show ?thesis
      using blockComment_frame [of l2 None l'] matchDelim_continue [of l2 l'] a f f2
      by auto
  next
    case plain
    from stmt_iter_plain [OF n plain] assms have "matchDelim l1 = (None, l')" by simp
    from matchDelim_continue [OF this] a f show ?thesis by simp
  qed
qed

text \<open>\<open>(l *lex) stmt\<close>: the loop runs until an iteration returns.\<close>

function stmt :: "lex \<Rightarrow> (error + string) \<times> lex" where
  "stmt l = (case stmt_iter l of (Some res, l') \<Rightarrow> (res, l') | (None, l') \<Rightarrow> stmt l')"
  by pat_completeness auto
termination
proof (relation "measure (\<lambda>l. length (input l) - pos l)", goal_cases)
  case 1
  show ?case by simp
next
  case (2 l out l')
  then have "stmt_iter l = (None, l')" by simp
  from stmt_iter_continue [OF this] show ?case by simp arith
qed

declare stmt.simps [simp del]

text \<open>
  \<open>stmts\<close>: the loop has no bound of its own, so it is a partial function and
  \<open>None\<close> means that the call does not return.
\<close>

partial_function (option) stmts_loop :: "lex \<Rightarrow> string list \<Rightarrow> (error + string list) option"
  where
  "stmts_loop l acc =
     (case stmt l of
        (Inl e, l') \<Rightarrow> if e = EOF then Some (Inr acc) else Some (Inl e)
      | (Inr s, l') \<Rightarrow> stmts_loop l' (acc @ [s]))"

definition stmts :: "string \<Rightarrow> (error + string list) option" where
  "stmts inp = (case newLex inp of Inl e \<Rightarrow> Some (Inl e) | Inr l \<Rightarrow> stmts_loop l [])"

subsection \<open>Notions the statements below are about\<close>

text \<open>
  \<open>scan_n n l\<close> is the state after \<open>n\<close> iterations of the loop of \<open>stmt\<close>
  started in \<open>l\<close>, when none of them returns.
\<close>

fun scan_n :: "nat \<Rightarrow> lex \<Rightarrow> lex option" where
  "scan_n 0 l = Some l"
| "scan_n (Suc n) l =
     (case stmt_iter l of (None, l') \<Rightarrow> scan_n n l' | (Some res, l') \<Rightarrow> None)"

text \<open>
  The states a splitter instance can be in: the one \<open>newLex\<close> builds, and every
  state that a call of \<open>next\<close>, an iteration of the loop of \<open>stmt\<close> or a whole
  call of \<open>stmt\<close> leaves behind, whatever it returns.
\<close>

inductive reachable :: "lex \<Rightarrow> bool" where
  init: "newLex inp = Inr l \<Longrightarrow> reachable l"
| read: "reachable l \<Longrightarrow> lex_next l = (r, l') \<Longrightarrow> reachable l'"
| iter: "reachable l \<Longrightarrow> stmt_iter l = (out, l') \<Longrightarrow> reachable l'"
| call: "reachable l \<Longrightarrow> stmt l = (res, l') \<Longrightarrow> reachable l'"

text \<open>The white space of the ASCII range: tab, line feed, vertical tab, form feed,
  carriage return and space.\<close>

definition asciiSpace :: "char \<Rightarrow> bool" where
  "asciiSpace c =
     (c = CHR 0x09 \<or> c = CHR 0x0A \<or> c = CHR 0x0B \<or> c = CHR 0x0C \<or> c = CHR 0x0D \<or> c = CHR 0x20)"

subsection \<open>Facts about the loops\<close>

text \<open>
  A call of \<open>stmt\<close> that returns a statement and leaves the state as it found it
  is repeated by \<open>stmts\<close> for ever.
\<close>

lemma stmts_loop_stuck:
  assumes "stmt l = (Inr s, l)"
  shows "stmts_loop l acc = None"
proof (rule ccontr)
  assume "stmts_loop l acc \<noteq> None"
  then obtain y where y: "stmts_loop l acc = Some y" by auto
  have "l' \<noteq> l" if "stmts_loop l' acc' = Some y'" for l' acc' y'
  proof (rule stmts_loop.raw_induct [where P = "\<lambda>l' acc' y'. l' \<noteq> l", OF _ that], goal_cases)
    case (1 f l' acc' y')
    show ?case
    proof
      assume "l' = l"
      with 1(2) assms have "f l (acc' @ [s]) = Some y'" by simp
      from 1(1) [OF this] show False by simp
    qed
  qed
  from this [OF y] show False by simp
qed

lemma lex_next_eos_state:
  assumes "lex_next l = (r, l1)" "r = eos"
  shows "l1 = l"
proof -
  from lex_next_eos [OF assms(1)] assms(2) have "length (input l) \<le> pos l" by simp
  with assms(1) show ?thesis by (simp add: lex_next_def)
qed

lemma lookahead_width:
  assumes n: "lex_next l = (r, l1)" and ne: "r \<noteq> eos" and n2: "lex_next l1 = (r2, l2)"
  shows "1 \<le> width l2"
proof (cases "r2 = eos")
  case True
  from lex_next_eos_state [OF n2 True] lex_next_advance [OF n ne] show ?thesis by simp
next
  case False
  from lex_next_advance [OF n2 this] show ?thesis by simp
qed

text \<open>Once a statement has been returned, the cursor stays beyond \<open>start\<close>.\<close>

lemma matchDelim_return:
  "matchDelim l = (Some (Inr s), l') \<Longrightarrow> 1 \<le> width l \<Longrightarrow> start l' < pos l'"
  by (auto simp: matchDelim_def split: if_splits)

lemma stmt_iter_return:
  assumes "stmt_iter l = (Some (Inr s), l')"
  shows "start l' < pos l'"
proof -
  obtain r l1 where n: "lex_next l = (r, l1)" by (cases "lex_next l")
  obtain r2 l2 where n2: "lex_next l1 = (r2, l2)" by (cases "lex_next l1")
  show ?thesis
  proof (cases r rule: rune_cases)
    case eos
    from stmt_iter_eos [OF n eos] assms show ?thesis
      by (auto simp: atEOS_def split: if_splits)
  next
    case opn
    from stmt_iter_open [OF n opn] assms show ?thesis by simp
  next
    case cls
    from stmt_iter_close [OF n cls] assms show ?thesis by (simp split: if_splits)
  next
    case quote
    from stmt_iter_quote [OF n quote] assms show ?thesis
      by (auto split: prod.splits option.splits)
  next
    case dash
    then have ne: "r \<noteq> eos" by (simp add: rune_of_def eos_def)
    note w = lookahead_width [OF n ne n2]
    from stmt_iter_dash [OF n dash n2] assms
    have "lineComment l2 = (Some (Inr s), l') \<or> matchDelim l2 = (Some (Inr s), l')"
      by (simp split: if_splits)
    then show ?thesis
      using matchDelim_return [OF _ w, of s l']
      by (auto simp: lineComment_def split: if_splits option.splits)
  next
    case slash
    then have ne: "r \<noteq> eos" by (simp add: rune_of_def eos_def)
    note w = lookahead_width [OF n ne n2]
    from stmt_iter_slash [OF n slash n2] assms
    have "blockComment l2 = (Some (Inr s), l') \<or> matchDelim l2 = (Some (Inr s), l')"
      by (simp split: if_splits)
    then show ?thesis
      using matchDelim_return [OF _ w, of s l']
      by (auto simp: blockComment_def split: if_splits option.splits)
  next
    case plain
    then have ne: "r \<noteq> eos" by (simp add: plain_def)
    from stmt_iter_plain [OF n plain] assms have "matchDelim l1 = (Some (Inr s), l')" by simp
    from matchDelim_return [OF this] lex_next_advance [OF n ne]
    show ?thesis by simp
  qed
qed

lemma stmt_return:
  "stmt l = (Inr s, l') \<Longrightarrow> start l' < pos l'"
proof (induction l rule: stmt.induct)
  case (1 l)
  obtain out l1 where it: "stmt_iter l = (out, l1)" by (cases "stmt_iter l")
  show ?case
  proof (cases out)
    case None
    with it "1.prems" have "stmt l1 = (Inr s, l')" by (simp add: stmt.simps [of l])
    from "1.IH" [OF it [symmetric, unfolded None] refl this] show ?thesis .
  next
    case (Some res)
    with it "1.prems" have "stmt_iter l = (Some (Inr s), l')" by (simp add: stmt.simps [of l])
    then show ?thesis by (rule stmt_iter_return)
  qed
qed

lemma stmt_iter_no_EOF:
  assumes "start l < pos l"
  shows "fst (stmt_iter l) \<noteq> Some (Inl EOF)"
proof -
  obtain r l1 where n: "lex_next l = (r, l1)" by (cases "lex_next l")
  obtain r2 l2 where n2: "lex_next l1 = (r2, l2)" by (cases "lex_next l1")
  note f = lex_next_frame [OF n]
  show ?thesis
  proof (cases r rule: rune_cases)
    case eos
    from stmt_iter_eos [OF n eos] assms f show ?thesis
      by (auto simp: atEOS_def)
  next
    case opn
    from stmt_iter_open [OF n opn] show ?thesis by simp
  next
    case cls
    from stmt_iter_close [OF n cls] show ?thesis by simp
  next
    case quote
    have "fst (skipQuote q l) \<noteq> Some EOF" for q l
    proof (induction q l rule: skipQuote.induct)
      case (1 quote l)
      then show ?case
        by (subst skipQuote.simps) (auto split: prod.splits)
    qed
    from this [of r l1] stmt_iter_quote [OF n quote] show ?thesis
      by (auto split: prod.splits option.splits)
  next
    case dash
    from stmt_iter_dash [OF n dash n2] show ?thesis
      by (auto simp: lineComment_def matchDelim_def split: option.splits)
  next
    case slash
    from stmt_iter_slash [OF n slash n2] show ?thesis
      by (auto simp: blockComment_def matchDelim_def split: option.splits)
  next
    case plain
    from stmt_iter_plain [OF n plain] show ?thesis
      by (auto simp: matchDelim_def)
  qed
qed

lemma stmt_no_EOF:
  "start l < pos l \<Longrightarrow> fst (stmt l) \<noteq> Inl EOF"
proof (induction l rule: stmt.induct)
  case (1 l)
  obtain out l1 where it: "stmt_iter l = (out, l1)" by (cases "stmt_iter l")
  show ?case
  proof (cases out)
    case None
    from stmt_iter_continue [OF it [unfolded None]] "1.prems" have "start l1 < pos l1" by simp
    from "1.IH" [OF it [symmetric, unfolded None] refl this] it None show ?thesis
      by (simp add: stmt.simps [of l])
  next
    case (Some res)
    with it stmt_iter_no_EOF [OF "1.prems"] show ?thesis by (simp add: stmt.simps [of l])
  qed
qed

lemma stmts_loop_after_statement:
  assumes "stmts_loop l acc = Some y" and "start l < pos l"
  shows "\<exists>e. y = Inl e"
proof -
  have "start l < pos l \<longrightarrow> (\<exists>e. y = Inl e)"
  proof (rule stmts_loop.raw_induct
      [where P = "\<lambda>l acc y. start l < pos l \<longrightarrow> (\<exists>e. y = Inl e)", OF _ assms(1)], goal_cases)
    case (1 f l acc y)
    show ?case
    proof
      assume lt: "start l < pos l"
      obtain res l' where st: "stmt l = (res, l')" by (cases "stmt l")
      show "\<exists>e. y = Inl e"
      proof (cases res)
        case (Inl e)
        with stmt_no_EOF [OF lt] st have "e \<noteq> EOF" by auto
        with 1(2) st Inl show ?thesis by auto
      next
        case (Inr s)
        with 1(2) st have "f l' (acc @ [s]) = Some y" by simp
        from 1(1) [OF this] stmt_return [OF st [unfolded Inr]] show ?thesis by simp
      qed
    qed
  qed
  with assms(2) show ?thesis by simp
qed

lemma stmts_returns_no_statement:
  assumes "stmts inp = Some (Inr xs)"
  shows "xs = []"
proof (cases "newLex inp")
  case (Inl e)
  with assms show ?thesis by (simp add: stmts_def)
next
  case (Inr l)
  with assms have r: "stmts_loop l [] = Some (Inr xs)" by (simp add: stmts_def)
  obtain res l' where st: "stmt l = (res, l')" by (cases "stmt l")
  show ?thesis
  proof (cases res)
    case (Inl e)
    with r st show ?thesis by (auto simp: stmts_loop.simps [of l] split: if_splits)
  next
    case (Inr s)
    with r st have "stmts_loop l' [s] = Some (Inr xs)" by (simp add: stmts_loop.simps [of l])
    from stmts_loop_after_statement [OF this stmt_return [OF st [unfolded Inr]]]
    show ?thesis by simp
  qed
qed

text \<open>A scan that does not return leaves the result of \<open>stmt\<close> as it is.\<close>

lemma scan_n_stmt: "scan_n n l0 = Some l \<Longrightarrow> stmt l0 = stmt l"
proof (induction n arbitrary: l0)
  case 0
  then show ?case by simp
next
  case (Suc n)
  obtain out l1 where it: "stmt_iter l0 = (out, l1)" by (cases "stmt_iter l0")
  with Suc.prems have out: "out = None" and "scan_n n l1 = Some l"
    by (auto split: option.splits)
  from Suc.IH [OF this(2)] it out show ?case by (simp add: stmt.simps [of l0])
qed

lemma lex_next_at_end: "length (input l) \<le> pos l \<Longrightarrow> lex_next l = (eos, l)"
  by (simp add: lex_next_def)

text \<open>The nesting depth along the steps of a splitter instance.\<close>

lemma newLex_depth: "newLex inp = Inr l \<Longrightarrow> depth l = 0"
  by (auto simp: newLex_def Let_def split: if_splits option.splits)

lemma atEOS_state: "atEOS l = (out, l') \<Longrightarrow> l' = l"
  by (auto simp: atEOS_def split: if_splits)

lemma stmt_iter_depth:
  assumes "stmt_iter l = (out, l')" and "0 \<le> depth l"
  shows "0 \<le> depth l'"
proof -
  obtain r l1 where n: "lex_next l = (r, l1)" by (cases "lex_next l")
  obtain r2 l2 where n2: "lex_next l1 = (r2, l2)" by (cases "lex_next l1")
  note f = lex_next_frame [OF n] and f2 = lex_next_frame [OF n2]
  show ?thesis
  proof (cases r rule: rune_cases)
    case eos
    from stmt_iter_eos [OF n eos] assms(1) have "atEOS l1 = (out, l')" by simp
    from atEOS_state [OF this] f assms(2) show ?thesis by simp
  next
    case opn
    from stmt_iter_open [OF n opn] assms f show ?thesis by auto
  next
    case cls
    from stmt_iter_close [OF n cls] assms f show ?thesis by (auto split: if_splits)
  next
    case quote
    obtain e l3 where q: "skipQuote r l1 = (e, l3)" by (cases "skipQuote r l1")
    with stmt_iter_quote [OF n quote] assms(1) have "l' = l3" by (auto split: option.splits)
    with skipQuote_frame [OF q] f assms(2) show ?thesis by simp
  next
    case dash
    from stmt_iter_dash [OF n dash n2] assms(1)
    have "lineComment l2 = (out, l') \<or> matchDelim l2 = (out, l')" by (simp split: if_splits)
    with lineComment_frame [of l2 out l'] matchDelim_frame [of l2 out l'] f f2 assms(2)
    show ?thesis by auto
  next
    case slash
    from stmt_iter_slash [OF n slash n2] assms(1)
    have "blockComment l2 = (out, l') \<or> matchDelim l2 = (out, l')" by (simp split: if_splits)
    with blockComment_frame [of l2 out l'] matchDelim_frame [of l2 out l'] f f2 assms(2)
    show ?thesis by auto
  next
    case plain
    from stmt_iter_plain [OF n plain] assms(1) have "matchDelim l1 = (out, l')" by simp
    from matchDelim_frame [OF this] f assms(2) show ?thesis by simp
  qed
qed

lemma stmt_depth:
  "stmt l = (res, l') \<Longrightarrow> 0 \<le> depth l \<Longrightarrow> 0 \<le> depth l'"
proof (induction l rule: stmt.induct)
  case (1 l)
  obtain out l1 where it: "stmt_iter l = (out, l1)" by (cases "stmt_iter l")
  note d = stmt_iter_depth [OF it "1.prems"(2)]
  show ?case
  proof (cases out)
    case None
    with it "1.prems"(1) have "stmt l1 = (res, l')" by (simp add: stmt.simps [of l])
    from "1.IH" [OF it [symmetric, unfolded None] refl this d] show ?thesis .
  next
    case (Some a)
    with it "1.prems"(1) have "l' = l1" by (simp add: stmt.simps [of l])
    with d show ?thesis by simp
  qed
qed

lemma HasPrefix_Nil: "HasPrefix [] delimComment = False"
  by (simp add: HasPrefix_def delimComment_def)

text \<open>Trimming a string of ASCII white space leaves nothing.\<close>

lemma TrimLeft_asciiSpace: "list_all asciiSpace s \<Longrightarrow> TrimLeft s = []"
proof (induction s)
  case Nil
  show ?case by (simp add: TrimLeft.simps)
next
  case (Cons c s)
  then have c: "asciiSpace c" and s: "TrimLeft s = []" by simp_all
  from c have "DecodeRuneInString (c # s) = (of_char c, 1)" "IsSpace (of_char c)"
    by (auto simp: asciiSpace_def DecodeRuneInString_def IsSpace_def)
  with s show ?case by (simp add: TrimLeft.simps [of "c # s"])
qed

lemma TrimSpace_asciiSpace: "list_all asciiSpace s \<Longrightarrow> TrimSpace s = []"
  by (simp add: TrimSpace_def TrimLeft_asciiSpace TrimRight.simps)

subsection \<open>Reading an ASCII byte, and the library functions on simple arguments\<close>



lemma HasPrefix_append: "HasPrefix (p @ s) p"
  by (simp add: HasPrefix_def)

lemma Index_newline:
  "CHR 0x0A \<notin> set d \<Longrightarrow> Index (d @ CHR 0x0A # rest) newline = Some (length d)"
  by (induction d) (auto simp: HasPrefix_def newline_def)

subsection \<open>What the case bodies do\<close>

text \<open>
  The last case on a match at depth 0, for a state whose slice bounds are in range: the
  text returned runs from \<open>start\<close> to the cursor, \<open>start\<close> becomes the offset
  where the match begins and the cursor moves on by the length of the delimiter.
\<close>

lemma matchDelim_at_match:
  assumes "depth l = 0" and "width l \<le> pos l" and "pos l \<le> length (input l)"
    and "start l \<le> pos l"
    and "HasPrefix (drop (pos l - width l) (input l)) (delim l)"
  shows "matchDelim l =
     (Some (Inr (take (pos l - start l) (drop (start l) (input l)))),
      l\<lparr>start := pos l - width l, pos := pos l + length (delim l)\<rparr>)"
  using assms by (simp add: matchDelim_def)

lemma matchDelim_errors: "fst (matchDelim l) = Some (Inl e) \<Longrightarrow> e = SlicePanic"
  by (auto simp: matchDelim_def split: if_splits)

text \<open>
  The line comment case: with a newline ahead the cursor moves past it; with none
  ahead the cursor stays where it is, just after the two dashes.
\<close>

lemma lineComment_newline:
  assumes "drop (pos l) (input l) = c @ CHR 0x0A # rest" and "CHR 0x0A \<notin> set c"
    and "pos l \<le> length (input l)"
  shows "lineComment l = (None, l\<lparr>pos := pos l + (length c + 1)\<rparr>)"
  using assms by (simp add: lineComment_def Index_newline)

lemma Index_newline_None: "CHR 0x0A \<notin> set s \<Longrightarrow> Index s newline = None"
  by (induction s) (auto simp: HasPrefix_def newline_def)

lemma lineComment_no_newline:
  assumes "CHR 0x0A \<notin> set (drop (pos l) (input l))" and "pos l \<le> length (input l)"
  shows "lineComment l = (None, l)"
  using assms by (simp add: lineComment_def Index_newline_None)

text \<open>
  What keeps a delimiter from being a boundary: an iteration that reads a quote
  character returns no statement (it skips the literal or fails), an iteration at a
  nesting depth above 0 returns no statement, and an iteration that reads \<open>/*\<close>
  goes on after the first \<open>*/\<close> or fails. On \<open>SELECT 'a;b'\<close> the first call of
  \<open>stmt\<close> returns the whole text.
\<close>

lemma stmt_iter_quote_no_statement:
  assumes "lex_next l = (r, l1)"
    and "r = rune_of CHR 0x27 \<or> r = rune_of CHR 0x22 \<or> r = rune_of CHR 0x60"
  shows "fst (stmt_iter l) \<noteq> Some (Inr s)"
  using stmt_iter_quote [OF assms] by (auto split: prod.splits option.splits)

lemma stmt_iter_nested_no_statement:
  assumes "0 < depth l"
  shows "fst (stmt_iter l) \<noteq> Some (Inr s)"
proof -
  obtain r l1 where n: "lex_next l = (r, l1)" by (cases "lex_next l")
  obtain r2 l2 where n2: "lex_next l1 = (r2, l2)" by (cases "lex_next l1")
  note f = lex_next_frame [OF n] and f2 = lex_next_frame [OF n2]
  have m: "fst (matchDelim l') \<noteq> Some (Inr s)" if "depth l' = depth l" for l'
    using that assms by (auto simp: matchDelim_def)
  show ?thesis
  proof (cases r rule: rune_cases)
    case eos
    from stmt_iter_eos [OF n eos] assms f show ?thesis by (simp add: atEOS_def)
  next
    case opn
    from stmt_iter_open [OF n opn] show ?thesis by simp
  next
    case cls
    from stmt_iter_close [OF n cls] show ?thesis by simp
  next
    case quote
    from stmt_iter_quote_no_statement [OF n quote] show ?thesis .
  next
    case dash
    from stmt_iter_dash [OF n dash n2] m [of l2] f f2 show ?thesis
      by (auto simp: lineComment_def split: option.splits)
  next
    case slash
    from stmt_iter_slash [OF n slash n2] m [of l2] f f2 show ?thesis
      by (auto simp: blockComment_def split: option.splits)
  next
    case plain
    from stmt_iter_plain [OF n plain] m [of l1] f show ?thesis by simp
  qed
qed

lemma stmt_iter_block_comment:
  assumes "lex_next l = (r, l1)" and "r = rune_of CHR ''/''"
    and "lex_next l1 = (r2, l2)" and "r2 = rune_of CHR ''*''"
  shows "stmt_iter l =
     (case Index (drop (pos l2) (input l2)) ''*/'' of
        None \<Rightarrow> (Some (Inl (UnclosedComment (pos l2))), l2)
      | Some i \<Rightarrow> (None, l2\<lparr>pos := pos l2 + (i + 2)\<rparr>))"
proof -
  have "r2 \<noteq> eos" using assms(4) by (simp add: rune_of_def eos_def)
  from lex_next_advance [OF assms(3) this] lex_next_frame [OF assms(3)]
  have "pos l2 \<le> length (input l2)" by simp
  with stmt_iter_slash [OF assms(1,2,3)] assms(4) show ?thesis
    by (simp add: blockComment_def)
qed

lemma quoted_literal_example:
  "stmt \<lparr>input = ''SELECT '' @ [CHR 0x27] @ ''a;b'' @ [CHR 0x27], pos = 0, width = 0,
          start = 0, depth = 0, delim = '';''\<rparr>
     = (Inr (''SELECT '' @ [CHR 0x27] @ ''a;b'' @ [CHR 0x27]),
        \<lparr>input = ''SELECT '' @ [CHR 0x27] @ ''a;b'' @ [CHR 0x27], pos = 12, width = 1,
          start = 0, depth = 0, delim = '';''\<rparr>)"
  by code_simp

subsection \<open>The nesting depth, step by step\<close>

text \<open>
  What one iteration does to the nesting depth: it raises it by one when the rune the
  loop has read is an opening parenthesis, lowers it by one when that rune is a closing
  parenthesis and the depth is not 0, and leaves it alone otherwise.
\<close>

lemma stmt_iter_depth_step:
  assumes "lex_next l = (r, l1)" and "stmt_iter l = (out, l')"
  shows "(r = rune_of CHR ''('' \<and> depth l' = depth l + 1)
       \<or> (r = rune_of CHR '')'' \<and> depth l \<noteq> 0 \<and> depth l' = depth l - 1)
       \<or> depth l' = depth l"
proof -
  note n = assms(1)
  obtain r2 l2 where n2: "lex_next l1 = (r2, l2)" by (cases "lex_next l1")
  note f = lex_next_frame [OF n] and f2 = lex_next_frame [OF n2]
  show ?thesis
  proof (cases r rule: rune_cases)
    case eos
    from stmt_iter_eos [OF n eos] assms(2) have "atEOS l1 = (out, l')" by simp
    from atEOS_state [OF this] f show ?thesis by simp
  next
    case opn
    from stmt_iter_open [OF n opn] assms(2) f opn show ?thesis by auto
  next
    case cls
    from stmt_iter_close [OF n cls] assms(2) f cls show ?thesis by (auto split: if_splits)
  next
    case quote
    obtain e l3 where q: "skipQuote r l1 = (e, l3)" by (cases "skipQuote r l1")
    with stmt_iter_quote [OF n quote] assms(2) have "l' = l3" by (auto split: option.splits)
    with skipQuote_frame [OF q] f show ?thesis by simp
  next
    case dash
    from stmt_iter_dash [OF n dash n2] assms(2)
    have "lineComment l2 = (out, l') \<or> matchDelim l2 = (out, l')" by (simp split: if_splits)
    with lineComment_frame [of l2 out l'] matchDelim_frame [of l2 out l'] f f2
    show ?thesis by auto
  next
    case slash
    from stmt_iter_slash [OF n slash n2] assms(2)
    have "blockComment l2 = (out, l') \<or> matchDelim l2 = (out, l')" by (simp split: if_splits)
    with blockComment_frame [of l2 out l'] matchDelim_frame [of l2 out l'] f f2
    show ?thesis by auto
  next
    case plain
    from stmt_iter_plain [OF n plain] assms(2) have "matchDelim l1 = (out, l')" by simp
    from matchDelim_frame [OF this] f show ?thesis by simp
  qed
qed

lemma stmt_iter_depth_raised:
  assumes "depth l < depth (snd (stmt_iter l))"
  shows "fst (lex_next l) = rune_of CHR ''('' \<and> depth (snd (stmt_iter l)) = depth l + 1"
  using stmt_iter_depth_step [of l "fst (lex_next l)" "snd (lex_next l)"
          "fst (stmt_iter l)" "snd (stmt_iter l)"] assms
  by auto

lemma stmt_iter_close_at_depth_0:
  assumes "fst (lex_next l) = rune_of CHR '')''" and "depth l = 0"
  shows "fst (stmt_iter l) = Some (Inl (UnexpectedCloseParen (pos (snd (lex_next l)))))
       \<and> depth (snd (stmt_iter l)) = 0"
proof -
  obtain r l1 where n: "lex_next l = (r, l1)" by (cases "lex_next l")
  with assms(1) have c: "r = rune_of CHR '')''" by simp
  from stmt_iter_close [OF n c] lex_next_frame [OF n] assms(2) n show ?thesis by simp
qed

lemma skipping_keeps_depth:
  "depth (snd (skipQuote q l)) = depth l"
  "depth (snd (lineComment l)) = depth l"
  "depth (snd (blockComment l)) = depth l"
  using skipQuote_frame [of q l "fst (skipQuote q l)" "snd (skipQuote q l)"]
        lineComment_frame [of l "fst (lineComment l)" "snd (lineComment l)"]
        blockComment_frame [of l "fst (blockComment l)" "snd (blockComment l)"]
  by simp_all

lemma scan_n_reachable: "reachable l0 \<Longrightarrow> scan_n n l0 = Some l \<Longrightarrow> reachable l"
proof (induction n arbitrary: l0)
  case 0
  then show ?case by simp
next
  case (Suc n)
  obtain out l1 where it: "stmt_iter l0 = (out, l1)" by (cases "stmt_iter l0")
  with Suc.prems(2) have "scan_n n l1 = Some l" by (auto split: option.splits)
  from Suc.IH [OF reachable.iter [OF Suc.prems(1) it] this] show ?case .
qed

lemma reachable_depth: "reachable l \<Longrightarrow> 0 \<le> depth l"
proof (induction rule: reachable.induct)
  case (init inp l)
  then show ?case by (simp add: newLex_depth)
next
  case (read l r l')
  with lex_next_frame [of l r l'] show ?case by simp
next
  case (iter l out l')
  then show ?case by (auto intro: stmt_iter_depth)
next
  case (call l res l')
  then show ?case by (auto intro: stmt_depth)
qed

section \<open>The claims\<close>

text \<open>
  C1. The claim: on a delimiter match at depth 0 the text from \<open>start\<close> up to the
  start of the match is returned, and the cursor and \<open>start\<close> are moved past the
  delimiter, so that the delimiter is in neither statement. The code, on the buffer
  \<open>a;b\<close> with the delimiter \<open>;\<close>: in the state that has just consumed the
  semicolon (cursor 2, width 1) the delimiter case returns \<open>a;\<close>, sets \<open>start\<close>
  to 1, the offset of the semicolon, and the cursor to 3, beyond \<open>b\<close>; so the first
  call of \<open>stmt\<close> returns \<open>a;\<close> and the next one returns \<open>;b\<close>.
\<close>

theorem C1_delimiter_left_in_both_statements:
  "newLex ''a;b''
     = Inr \<lparr>input = ''a;b'', pos = 0, width = 0, start = 0, depth = 0, delim = '';''\<rparr>
   \<and> matchDelim \<lparr>input = ''a;b'', pos = 2, width = 1, start = 0, depth = 0, delim = '';''\<rparr>
     = (Some (Inr ''a;''),
        \<lparr>input = ''a;b'', pos = 3, width = 1, start = 1, depth = 0, delim = '';''\<rparr>)
   \<and> stmt \<lparr>input = ''a;b'', pos = 0, width = 0, start = 0, depth = 0, delim = '';''\<rparr>
     = (Inr ''a;'',
        \<lparr>input = ''a;b'', pos = 3, width = 1, start = 1, depth = 0, delim = '';''\<rparr>)
   \<and> stmt \<lparr>input = ''a;b'', pos = 3, width = 1, start = 1, depth = 0, delim = '';''\<rparr>
     = (Inr '';b'',
        \<lparr>input = ''a;b'', pos = 3, width = 1, start = 1, depth = 0, delim = '';''\<rparr>)"
  by code_simp

text \<open>
  C2. The claim: \<open>stmts\<close> splits N segments joined by \<open>;\<close> into exactly those N
  statements. The code, on \<open>SELECT 1;SELECT 2\<close>: \<open>stmts\<close> does not return. The
  first call of \<open>stmt\<close> returns \<open>SELECT 1;\<close>, the second one reaches the end of
  the input and returns \<open>;SELECT 2\<close> without moving \<open>start\<close>, and every later call
  finds the same state and returns the same text again.
\<close>

theorem C2_stmts_does_not_return:
  "stmts ''SELECT 1;SELECT 2'' = None"
proof -
  let ?l0 = "\<lparr>input = ''SELECT 1;SELECT 2'', pos = 0, width = 0, start = 0, depth = 0,
               delim = '';''\<rparr>"
  let ?l1 = "\<lparr>input = ''SELECT 1;SELECT 2'', pos = 10, width = 1, start = 8, depth = 0,
               delim = '';''\<rparr>"
  let ?l2 = "\<lparr>input = ''SELECT 1;SELECT 2'', pos = 17, width = 1, start = 8, depth = 0,
               delim = '';''\<rparr>"
  have n: "newLex ''SELECT 1;SELECT 2'' = Inr ?l0" by code_simp
  have s0: "stmt ?l0 = (Inr ''SELECT 1;'', ?l1)" by code_simp
  have s1: "stmt ?l1 = (Inr '';SELECT 2'', ?l2)" by code_simp
  have s2: "stmt ?l2 = (Inr '';SELECT 2'', ?l2)" by code_simp
  have u0: "stmts_loop ?l0 acc = stmts_loop ?l1 (acc @ [''SELECT 1;''])" for acc
    by (subst stmts_loop.simps) (simp only: s0 prod.case sum.case)
  have u1: "stmts_loop ?l1 acc = stmts_loop ?l2 (acc @ ['';SELECT 2''])" for acc
    by (subst stmts_loop.simps) (simp only: s1 prod.case sum.case)
  have "stmts_loop ?l2 acc = None" for acc by (rule stmts_loop_stuck [OF s2])
  with u0 u1 have "stmts_loop ?l0 [] = None" by (simp only:)
  with n show ?thesis by (simp only: stmts_def sum.case)
qed

text \<open>
  C3. The claim: a delimiter inside a quoted literal, inside parentheses or inside a
  line or block comment is never a statement boundary. The code, on the line comment
  \<open>-- a;b\<close> with no newline after it: the first call of \<open>stmt\<close> returns
  \<open>-- a;\<close>, a statement that ends at the semicolon inside the comment.
\<close>

theorem C3_boundary_inside_line_comment:
  "newLex ''-- a;b''
     = Inr \<lparr>input = ''-- a;b'', pos = 0, width = 0, start = 0, depth = 0, delim = '';''\<rparr>
   \<and> stmt \<lparr>input = ''-- a;b'', pos = 0, width = 0, start = 0, depth = 0, delim = '';''\<rparr>
     = (Inr ''-- a;'',
        \<lparr>input = ''-- a;b'', pos = 6, width = 1, start = 4, depth = 0, delim = '';''\<rparr>)"
  by code_simp

text \<open>
  C4 (amended). When the rune read is \<open>-\<close> or \<open>/\<close> and the rune after it does not
  complete the comment marker, that second rune has been consumed, and the iteration
  does exactly what the delimiter case does in the state after it: the nesting depth is
  unchanged, no error other than a slice out of range can come out of it (so the second
  rune neither opens or closes a parenthesis nor starts a quote), and the delimiter is
  looked for at the offset where that second rune starts.
\<close>

theorem C4_lookahead:
  assumes "lex_next l = (r, l1)" and "r = rune_of CHR ''-'' \<or> r = rune_of CHR ''/''"
    and "lex_next l1 = (r2, l2)"
    and "\<not> (r = rune_of CHR ''-'' \<and> r2 = rune_of CHR ''-'')"
    and "\<not> (r = rune_of CHR ''/'' \<and> r2 = rune_of CHR ''*'')"
  shows "stmt_iter l = matchDelim l2
     \<and> depth (snd (stmt_iter l)) = depth l
     \<and> (\<forall>e. fst (stmt_iter l) = Some (Inl e) \<longrightarrow> e = SlicePanic)
     \<and> (r2 \<noteq> eos \<longrightarrow> pos l2 - width l2 = pos l1)"
proof -
  have it: "stmt_iter l = matchDelim l2"
    using assms(2)
  proof
    assume d: "r = rune_of CHR ''-''"
    from stmt_iter_dash [OF assms(1) d assms(3)] assms(4) d show ?thesis by simp
  next
    assume s: "r = rune_of CHR ''/''"
    from stmt_iter_slash [OF assms(1) s assms(3)] assms(5) s show ?thesis by simp
  qed
  obtain out l' where m: "matchDelim l2 = (out, l')" by (cases "matchDelim l2")
  from matchDelim_frame [OF m] lex_next_frame [OF assms(1)] lex_next_frame [OF assms(3)] it m
  have d: "depth (snd (stmt_iter l)) = depth l" by simp
  have p: "pos l2 - width l2 = pos l1" if "r2 \<noteq> eos"
    using lex_next_advance [OF assms(3) that] by simp
  from it d p matchDelim_errors [of l2] show ?thesis by simp
qed

theorem C4_lookahead_witness:
  "lex_next \<lparr>input = ''a-(b'', pos = 1, width = 1, start = 0, depth = 0, delim = '';''\<rparr>
     = (rune_of CHR ''-'',
        \<lparr>input = ''a-(b'', pos = 2, width = 1, start = 0, depth = 0, delim = '';''\<rparr>)
   \<and> lex_next \<lparr>input = ''a-(b'', pos = 2, width = 1, start = 0, depth = 0, delim = '';''\<rparr>
     = (rune_of CHR ''('',
        \<lparr>input = ''a-(b'', pos = 3, width = 1, start = 0, depth = 0, delim = '';''\<rparr>)
   \<and> stmt_iter \<lparr>input = ''a-(b'', pos = 1, width = 1, start = 0, depth = 0, delim = '';''\<rparr>
     = (None, \<lparr>input = ''a-(b'', pos = 3, width = 1, start = 0, depth = 0, delim = '';''\<rparr>)"
proof -
  let ?l = "\<lparr>input = ''a-(b'', pos = 1, width = 1, start = 0, depth = 0, delim = '';''\<rparr>"
  let ?l1 = "\<lparr>input = ''a-(b'', pos = 2, width = 1, start = 0, depth = 0, delim = '';''\<rparr>"
  let ?l2 = "\<lparr>input = ''a-(b'', pos = 3, width = 1, start = 0, depth = 0, delim = '';''\<rparr>"
  have a: "lex_next ?l = (rune_of CHR ''-'', ?l1)" by code_simp
  have b: "lex_next ?l1 = (rune_of CHR ''('', ?l2)" by code_simp
  have c: "rune_of CHR ''-'' = rune_of CHR ''-'' \<or> rune_of CHR ''-'' = rune_of CHR ''/''" by simp
  have d: "\<not> (rune_of CHR ''-'' = rune_of CHR ''-'' \<and> rune_of CHR ''('' = rune_of CHR ''-'')"
    by (simp add: rune_of_def)
  have e: "\<not> (rune_of CHR ''-'' = rune_of CHR ''/'' \<and> rune_of CHR ''('' = rune_of CHR ''*'')"
    by (simp add: rune_of_def)
  have m: "matchDelim ?l2 = (None, ?l2)" by code_simp
  from C4_lookahead [OF a c b d e] a b m show ?thesis by simp
qed

text \<open>
  The claim as stated says that the consumed rune cannot begin a delimiter match. In
  \<open>a-;b\<close> the iteration that reads \<open>-\<close> consumes \<open>;\<close> as lookahead and returns
  the statement \<open>a-;\<close>, with \<open>start\<close> set to 2, the offset of that semicolon.
\<close>

theorem C4_lookahead_counterexample:
  "lex_next \<lparr>input = ''a-;b'', pos = 1, width = 1, start = 0, depth = 0, delim = '';''\<rparr>
     = (rune_of CHR ''-'',
        \<lparr>input = ''a-;b'', pos = 2, width = 1, start = 0, depth = 0, delim = '';''\<rparr>)
   \<and> lex_next \<lparr>input = ''a-;b'', pos = 2, width = 1, start = 0, depth = 0, delim = '';''\<rparr>
     = (rune_of CHR '';'',
        \<lparr>input = ''a-;b'', pos = 3, width = 1, start = 0, depth = 0, delim = '';''\<rparr>)
   \<and> stmt_iter \<lparr>input = ''a-;b'', pos = 1, width = 1, start = 0, depth = 0, delim = '';''\<rparr>
     = (Some (Inr ''a-;''),
        \<lparr>input = ''a-;b'', pos = 4, width = 1, start = 2, depth = 0, delim = '';''\<rparr>)"
  by code_simp

text \<open>
  C5. The claim: after \<open>--\<close> the scanner skips to the next newline or, if there is
  none, to the end of the input, and nothing it skips can change the depth, start a
  quote or match the delimiter. The code, on \<open>--(\<close>: with no newline ahead the line
  comment case leaves the cursor just after the dashes, the parenthesis in the comment
  is scanned and raises the depth, and \<open>stmt\<close> fails with the unclosed-parentheses
  error.
\<close>

theorem C5_line_comment_without_newline:
  "newLex ''--(''
     = Inr \<lparr>input = ''--('', pos = 0, width = 0, start = 0, depth = 0, delim = '';''\<rparr>
   \<and> lineComment \<lparr>input = ''--('', pos = 2, width = 1, start = 0, depth = 0, delim = '';''\<rparr>
     = (None, \<lparr>input = ''--('', pos = 2, width = 1, start = 0, depth = 0, delim = '';''\<rparr>)
   \<and> stmt \<lparr>input = ''--('', pos = 0, width = 0, start = 0, depth = 0, delim = '';''\<rparr>
     = (Inl UnclosedParentheses,
        \<lparr>input = ''--('', pos = 3, width = 1, start = 0, depth = 1, delim = '';''\<rparr>)"
  by code_simp

text \<open>
  C6 (amended). If the trimmed input begins with the directive marker, the text after
  the marker is trimmed again; if what is left has a newline, the part before its first
  newline becomes the delimiter as it stands and the part after that newline becomes the
  buffer.
\<close>

theorem C6_directive:
  assumes "TrimSpace inp = delimComment @ body"
    and "TrimSpace body = d @ CHR 0x0A # rest"
    and "CHR 0x0A \<notin> set d"
  shows "newLex inp
     = Inr \<lparr>input = rest, pos = 0, width = 0, start = 0, depth = 0, delim = d\<rparr>"
  using assms by (simp add: newLex_def HasPrefix_append Index_newline)

theorem C6_directive_witness:
  "TrimSpace (''//atlas:delimiter $$ '' @ [CHR 0x0A] @ ''A$$ B'')
     = delimComment @ (''$$ '' @ [CHR 0x0A] @ ''A$$ B'')
   \<and> TrimSpace (''$$ '' @ [CHR 0x0A] @ ''A$$ B'') = ''$$ '' @ CHR 0x0A # ''A$$ B''
   \<and> newLex (''//atlas:delimiter $$ '' @ [CHR 0x0A] @ ''A$$ B'')
     = Inr \<lparr>input = ''A$$ B'', pos = 0, width = 0, start = 0, depth = 0, delim = ''$$ ''\<rparr>"
proof -
  have a: "TrimSpace (''//atlas:delimiter $$ '' @ [CHR 0x0A] @ ''A$$ B'')
     = delimComment @ (''$$ '' @ [CHR 0x0A] @ ''A$$ B'')"
    by code_simp
  have b: "TrimSpace (''$$ '' @ [CHR 0x0A] @ ''A$$ B'') = ''$$ '' @ CHR 0x0A # ''A$$ B''"
    by code_simp
  have c: "CHR 0x0A \<notin> set ''$$ ''" by simp
  from C6_directive [OF a b c] a b show ?thesis by simp
qed

text \<open>
  The claim as stated takes the text between the marker and the first newline with no
  trimming. With two spaces after \<open>delimiter\<close> that text is \<open> $$\<close>, with a space
  in front, and the delimiter of the scanner is \<open>$$\<close>.
\<close>

theorem C6_directive_counterexample:
  "TrimSpace (''//atlas:delimiter  $$'' @ [CHR 0x0A] @ ''X'')
     = delimComment @ '' $$'' @ [CHR 0x0A] @ ''X''
   \<and> newLex (''//atlas:delimiter  $$'' @ [CHR 0x0A] @ ''X'')
     = Inr \<lparr>input = ''X'', pos = 0, width = 0, start = 0, depth = 0, delim = ''$$''\<rparr>"
  by code_simp

text \<open>
  C7. Whenever the scan of \<open>stmt\<close>, started in any state \<open>l0\<close>, reaches the end of
  the input (the cursor is at or beyond the length of the buffer) in a state \<open>l\<close>
  whose nesting depth is greater than 0, the call fails with the unclosed-parentheses
  error: it returns an error and no statement, and the depth is left as it was.
\<close>

theorem C7_unclosed_parentheses:
  assumes "scan_n n l0 = Some l" and "length (input l) \<le> pos l" and "0 < depth l"
  shows "stmt l0 = (Inl UnclosedParentheses, l)"
proof -
  from assms(2) have "lex_next l = (eos, l)" by (rule lex_next_at_end)
  from stmt_iter_eos [OF this refl] assms(3)
  have "stmt_iter l = (Some (Inl UnclosedParentheses), l)" by (simp add: atEOS_def)
  then have "stmt l = (Inl UnclosedParentheses, l)" by (simp add: stmt.simps [of l])
  with scan_n_stmt [OF assms(1)] show ?thesis by simp
qed

theorem C7_unclosed_parentheses_witness:
  "scan_n 9 \<lparr>input = ''SELECT (1'', pos = 0, width = 0, start = 0, depth = 0, delim = '';''\<rparr>
     = Some \<lparr>input = ''SELECT (1'', pos = 9, width = 1, start = 0, depth = 1, delim = '';''\<rparr>
   \<and> stmt \<lparr>input = ''SELECT (1'', pos = 0, width = 0, start = 0, depth = 0, delim = '';''\<rparr>
     = (Inl UnclosedParentheses,
        \<lparr>input = ''SELECT (1'', pos = 9, width = 1, start = 0, depth = 1, delim = '';''\<rparr>)"
proof -
  have h: "scan_n 9 \<lparr>input = ''SELECT (1'', pos = 0, width = 0, start = 0, depth = 0, delim = '';''\<rparr>
     = Some \<lparr>input = ''SELECT (1'', pos = 9, width = 1, start = 0, depth = 1, delim = '';''\<rparr>"
    by code_simp
  from C7_unclosed_parentheses [OF h] h show ?thesis by simp
qed




text \<open>
  C9. For every input that is empty or consists of white space only (trimming it leaves
  nothing; in particular every string of ASCII white space), \<open>newLex\<close> builds a
  scanner on the empty buffer, the first call of \<open>stmt\<close> signals exhaustion
  (\<open>io.EOF\<close>) at once, and \<open>stmts\<close> returns zero statements and no error.
\<close>

theorem C9_whitespace_only:
  assumes "TrimSpace inp = []"
  shows "newLex inp = Inr \<lparr>input = [], pos = 0, width = 0, start = 0, depth = 0, delim = '';''\<rparr>
     \<and> stmt \<lparr>input = [], pos = 0, width = 0, start = 0, depth = 0, delim = '';''\<rparr>
       = (Inl EOF, \<lparr>input = [], pos = 0, width = 0, start = 0, depth = 0, delim = '';''\<rparr>)
     \<and> stmts inp = Some (Inr [])"
proof -
  let ?l = "\<lparr>input = [], pos = 0, width = 0, start = 0, depth = 0, delim = '';''\<rparr>"
  have n: "newLex inp = Inr ?l"
    using assms by (simp add: newLex_def HasPrefix_Nil)
  have "lex_next ?l = (eos, ?l)" by (simp add: lex_next_def)
  from stmt_iter_eos [OF this refl] have "stmt_iter ?l = (Some (Inl EOF), ?l)"
    by (simp add: atEOS_def)
  then have s: "stmt ?l = (Inl EOF, ?l)" by (simp add: stmt.simps [of ?l])
  then have "stmts_loop ?l [] = Some (Inr [])" by (simp add: stmts_loop.simps [of ?l])
  with n s show ?thesis by (simp add: stmts_def)
qed

theorem C9_whitespace_only_witness:
  "TrimSpace [CHR 0x20, CHR 0x0A, CHR 0x09, CHR 0x20] = []
   \<and> stmts [CHR 0x20, CHR 0x0A, CHR 0x09, CHR 0x20] = Some (Inr [])
   \<and> stmts [] = Some (Inr [])"
proof -
  have a: "TrimSpace [CHR 0x20, CHR 0x0A, CHR 0x09, CHR 0x20] = []"
    by (rule TrimSpace_asciiSpace) (simp add: asciiSpace_def)
  have b: "TrimSpace [] = []"
    by (rule TrimSpace_asciiSpace) simp
  from C9_whitespace_only [OF a] C9_whitespace_only [OF b] a show ?thesis by simp
qed

text \<open>
  C10 (amended). The nesting depth is never negative in a state of a splitter instance:
  it is 0 in the state \<open>newLex\<close> builds and no call of \<open>next\<close>, no iteration of the
  loop and no call of \<open>stmt\<close> makes it negative. An iteration raises it, by one, only
  when the rune that the loop itself has read is an opening parenthesis; skipping a
  quoted literal, a line comment or a block comment never changes it; and when the rune
  read at depth 0 is a closing parenthesis the iteration returns the
  unexpected-closing-parenthesis error and the depth stays 0.
\<close>

theorem C10_depth_never_negative:
  assumes "reachable l"
  shows "0 \<le> depth l
     \<and> (depth l < depth (snd (stmt_iter l)) \<longrightarrow>
          fst (lex_next l) = rune_of CHR ''('' \<and> depth (snd (stmt_iter l)) = depth l + 1)
     \<and> depth (snd (skipQuote q l)) = depth l
     \<and> depth (snd (lineComment l)) = depth l
     \<and> depth (snd (blockComment l)) = depth l
     \<and> (fst (lex_next l) = rune_of CHR '')'' \<and> depth l = 0 \<longrightarrow>
          fst (stmt_iter l) = Some (Inl (UnexpectedCloseParen (pos (snd (lex_next l)))))
          \<and> depth (snd (stmt_iter l)) = 0)"
  using reachable_depth [OF assms] stmt_iter_depth_raised [of l]
        skipping_keeps_depth(1) [of q l] skipping_keeps_depth(2,3) [of l]
        stmt_iter_close_at_depth_0 [of l]
  by simp

theorem C10_depth_never_negative_witness:
  "reachable \<lparr>input = ''(a))'', pos = 0, width = 0, start = 0, depth = 0, delim = '';''\<rparr>
   \<and> fst (lex_next \<lparr>input = ''(a))'', pos = 0, width = 0, start = 0, depth = 0, delim = '';''\<rparr>)
       = rune_of CHR ''(''
   \<and> stmt_iter \<lparr>input = ''(a))'', pos = 0, width = 0, start = 0, depth = 0, delim = '';''\<rparr>
       = (None, \<lparr>input = ''(a))'', pos = 1, width = 1, start = 0, depth = 1, delim = '';''\<rparr>)
   \<and> reachable \<lparr>input = ''(a))'', pos = 3, width = 1, start = 0, depth = 0, delim = '';''\<rparr>
   \<and> fst (lex_next \<lparr>input = ''(a))'', pos = 3, width = 1, start = 0, depth = 0, delim = '';''\<rparr>)
       = rune_of CHR '')''
   \<and> stmt_iter \<lparr>input = ''(a))'', pos = 3, width = 1, start = 0, depth = 0, delim = '';''\<rparr>
       = (Some (Inl (UnexpectedCloseParen 4)),
          \<lparr>input = ''(a))'', pos = 4, width = 1, start = 0, depth = 0, delim = '';''\<rparr>)"
proof -
  let ?l0 = "\<lparr>input = ''(a))'', pos = 0, width = 0, start = 0, depth = 0, delim = '';''\<rparr>"
  let ?l1 = "\<lparr>input = ''(a))'', pos = 1, width = 1, start = 0, depth = 1, delim = '';''\<rparr>"
  let ?l3 = "\<lparr>input = ''(a))'', pos = 3, width = 1, start = 0, depth = 0, delim = '';''\<rparr>"
  let ?l4 = "\<lparr>input = ''(a))'', pos = 4, width = 1, start = 0, depth = 0, delim = '';''\<rparr>"
  have n: "newLex ''(a))'' = Inr ?l0" by code_simp
  have s: "scan_n 3 ?l0 = Some ?l3" by code_simp
  have r0: "reachable ?l0" by (rule reachable.init [OF n])
  have r3: "reachable ?l3" by (rule scan_n_reachable [OF r0 s])
  have i0: "stmt_iter ?l0 = (None, ?l1)" by code_simp
  have i3: "stmt_iter ?l3 = (Some (Inl (UnexpectedCloseParen 4)), ?l4)" by code_simp
  have a: "depth ?l0 < depth (snd (stmt_iter ?l0))" by (simp only: i0) simp
  have c: "fst (lex_next ?l3) = rune_of CHR '')'' \<and> depth ?l3 = 0" by code_simp
  from C10_depth_never_negative [OF r0, where q = 0] a
  have g0: "fst (lex_next ?l0) = rune_of CHR ''(''" by blast
  from C10_depth_never_negative [OF r3, where q = 0] c
  have g3: "fst (stmt_iter ?l3)
      = Some (Inl (UnexpectedCloseParen (pos (snd (lex_next ?l3)))))" by blast
  from r0 r3 g0 i0 i3 c show ?thesis by (simp only: simp_thms)
qed

text \<open>
  The claim as stated has the depth raised only by an opening parenthesis that is
  neither quoted nor commented. In \<open>-'('\<close> the opening quote is consumed as the
  lookahead after \<open>-\<close>, and in \<open>--(\<close> the line comment has no newline to skip to: in
  both the parenthesis is read by the loop, and after two iterations the depth is 1.
\<close>

theorem C10_depth_raised_inside_quotes_and_comment:
  "newLex [CHR ''-'', CHR 0x27, CHR ''('', CHR 0x27]
     = Inr \<lparr>input = [CHR ''-'', CHR 0x27, CHR ''('', CHR 0x27], pos = 0, width = 0, start = 0,
            depth = 0, delim = '';''\<rparr>
   \<and> scan_n 2 \<lparr>input = [CHR ''-'', CHR 0x27, CHR ''('', CHR 0x27], pos = 0, width = 0,
                 start = 0, depth = 0, delim = '';''\<rparr>
     = Some \<lparr>input = [CHR ''-'', CHR 0x27, CHR ''('', CHR 0x27], pos = 3, width = 1, start = 0,
              depth = 1, delim = '';''\<rparr>
   \<and> newLex ''--(''
     = Inr \<lparr>input = ''--('', pos = 0, width = 0, start = 0, depth = 0, delim = '';''\<rparr>
   \<and> scan_n 2 \<lparr>input = ''--('', pos = 0, width = 0, start = 0, depth = 0, delim = '';''\<rparr>
     = Some \<lparr>input = ''--('', pos = 3, width = 1, start = 0, depth = 1, delim = '';''\<rparr>"
  by code_simp

end
